theory Spec2Isabelle
  imports Main "HOL-Library.AList"
begin

section \<open>The diff data model (models/diff)\<close>

text \<open>
  \<^verbatim>\<open>export enum DiffLineType { Context, Add, Delete, Hunk }\<close>
  A TypeScript numeric enum: at run time a value of the enum is the number of its
  position, which \<open>DiffLineType_value\<close> gives.
\<close>

datatype DiffLineType = Context | Add | Delete | Hunk

fun DiffLineType_value :: "DiffLineType \<Rightarrow> int" where
  "DiffLineType_value Context = 0"
| "DiffLineType_value Add = 1"
| "DiffLineType_value Delete = 2"
| "DiffLineType_value Hunk = 3"

text \<open>
  \<^verbatim>\<open>class DiffLine\<close>: every field is read-only but \<open>selected\<close>, which the constructor
  sets to false. The field \<^verbatim>\<open>text\<close> is \<open>text_line\<close> and \<^verbatim>\<open>type\<close> is \<open>type_line\<close> here.
\<close>

record DiffLine =
  text_line :: string
  type_line :: DiffLineType
  oldLineNumber :: "int option"
  newLineNumber :: "int option"
  selected :: bool
  noTrailingNewLine :: bool

record DiffHunkHeader =
  oldStartLine :: int
  oldLineCount :: int
  newStartLine :: int
  newLineCount :: int

record DiffHunk =
  header :: DiffHunkHeader
  lines :: "DiffLine list"
  unifiedDiffStart :: int
  unifiedDiffEnd :: int

record Diff =
  hunks :: "DiffHunk list"
  isBinary :: bool

text \<open>\<^verbatim>\<open>new DiffModel([])\<close>: no hunks, \<open>isBinary\<close> by default false.\<close>

definition emptyDiff :: Diff where
  "emptyDiff = \<lparr>hunks = [], isBinary = False\<rparr>"

text \<open>
  The test \<^verbatim>\<open>line.type === DiffLineType.Add || line.type === DiffLineType.Delete\<close>,
  written out in \<open>setAllLines\<close> and in \<open>onIncludeChanged\<close>.
\<close>

definition isAddOrDelete :: "DiffLine \<Rightarrow> bool" where
  "isAddOrDelete line = (type_line line = Add \<or> type_line line = Delete)"

section \<open>The selection map\<close>

text \<open>
  \<^verbatim>\<open>Map<number, boolean>\<close>: a JavaScript map iterates in insertion order and holds a key
  once. It is an association list here; \<open>Map_set\<close> overwrites the value of a key that is
  present, in place, and appends a new key at the end, as \<^verbatim>\<open>Map.prototype.set\<close> does.
  The keys are line indices, integers.
\<close>

type_synonym SelectionMap = "(int \<times> bool) list"

definition Map_set :: "int \<Rightarrow> bool \<Rightarrow> SelectionMap \<Rightarrow> SelectionMap" where
  "Map_set k v m = AList.update k v m"

definition Map_get :: "SelectionMap \<Rightarrow> int \<Rightarrow> bool option" where
  "Map_get m k = map_of m k"

definition Map_keys :: "SelectionMap \<Rightarrow> int list" where
  "Map_keys m = map fst m"

definition Map_values :: "SelectionMap \<Rightarrow> bool list" where
  "Map_values m = map snd m"

definition Map_size :: "SelectionMap \<Rightarrow> nat" where
  "Map_size m = length m"

section \<open>The selection summary\<close>

datatype DiffSelectionType = AllSel | PartialSel | NoneSel

record ParseResult =
  allSelected :: bool
  noneSelected :: bool

text \<open>
  \<^verbatim>\<open>DiffSelectionParser.parse\<close>: \<^verbatim>\<open>Array.prototype.every\<close> over the values of the map,
  once for \<^verbatim>\<open>k === true\<close> and once for \<^verbatim>\<open>k === false\<close>.
\<close>

definition parse :: "SelectionMap \<Rightarrow> ParseResult" where
  "parse selection =
     (let toArray = Map_values selection;
          allSelected = list_all (\<lambda>k. k = True) toArray;
          noneSelected = list_all (\<lambda>k. k = False) toArray
      in \<lparr>allSelected = allSelected, noneSelected = noneSelected\<rparr>)"

definition getState :: "SelectionMap \<Rightarrow> DiffSelectionType" where
  "getState selection =
     (let r = parse selection
      in if allSelected r then AllSel
         else if noneSelected r then NoneSel
         else PartialSel)"

text \<open>
  \<^verbatim>\<open>class DiffSelection\<close>: the default \<open>include_sel\<close> (the field \<^verbatim>\<open>include\<close>) and the
  lines selected one by one.
\<close>

record DiffSelection =
  include_sel :: DiffSelectionType
  selectedLines :: SelectionMap

definition getSelectionType :: "DiffSelection \<Rightarrow> DiffSelectionType" where
  "getSelectionType s =
     (if Map_size (selectedLines s) = 0 then include_sel s
      else getState (selectedLines s))"

section \<open>The class name of a line\<close>

text \<open>
  \<^verbatim>\<open>assertNever\<close> throws; the error is a value here. \<open>GetDiffFailed\<close> is the rejection of
  the promise of \<^verbatim>\<open>LocalGitOperations.getDiff\<close>.
\<close>

datatype error = UnknownDiffLineType int | GetDiffFailed string

text \<open>
  \<^verbatim>\<open>Diff.getClassName\<close>: the \<^verbatim>\<open>switch\<close> runs on the number that the enum value is at run
  time, so that the branch after the \<^verbatim>\<open>switch\<close> is a branch of the model.
\<close>

definition getClassName :: "int \<Rightarrow> error + string" where
  "getClassName t =
     (if t = DiffLineType_value Add then Inr ''diff-add''
      else if t = DiffLineType_value Delete then Inr ''diff-delete''
      else if t = DiffLineType_value Context then Inr ''diff-context''
      else if t = DiffLineType_value Hunk then Inr ''diff-hunk''
      else Inl (UnknownDiffLineType t))"

section \<open>Operations on the diff\<close>

text \<open>
  \<^verbatim>\<open>Diff.setAllLines\<close> (models/diff): \<^verbatim>\<open>forEach\<close> over the hunks and, inside, over the lines
  of the hunk, assigning \<open>selected\<close> on the lines of type Add or Delete. The source mutates
  the line objects in place; the model returns the updated diff. The assignment depends on
  the line alone, so a line object held at two places receives the same value at both.
\<close>

primrec setAllLines_lines :: "bool \<Rightarrow> DiffLine list \<Rightarrow> DiffLine list" where
  "setAllLines_lines inc [] = []"
| "setAllLines_lines inc (line # rest) =
     (if type_line line = Add \<or> type_line line = Delete
      then line\<lparr>selected := inc\<rparr> else line) # setAllLines_lines inc rest"

primrec setAllLines_hunks :: "bool \<Rightarrow> DiffHunk list \<Rightarrow> DiffHunk list" where
  "setAllLines_hunks inc [] = []"
| "setAllLines_hunks inc (hunk # rest) =
     hunk\<lparr>lines := setAllLines_lines inc (lines hunk)\<rparr> # setAllLines_hunks inc rest"

definition setAllLines :: "bool \<Rightarrow> Diff \<Rightarrow> Diff" where
  "setAllLines inc diff = diff\<lparr>hunks := setAllLines_hunks inc (hunks diff)\<rparr>"

text \<open>
  \<^verbatim>\<open>Diff.diffHunkForIndex\<close> (the component): \<^verbatim>\<open>Array.prototype.find\<close> gives the first hunk
  whose range holds the index, and \<^verbatim>\<open>hunk || null\<close> turns a missing one into null.
\<close>

definition diffHunkForIndex :: "Diff \<Rightarrow> int \<Rightarrow> DiffHunk option" where
  "diffHunkForIndex diff index =
     find (\<lambda>h. index \<ge> unifiedDiffStart h \<and> index \<le> unifiedDiffEnd h) (hunks diff)"

text \<open>
  Reading a JavaScript array at a number: the element inside the bounds,
  \<^verbatim>\<open>undefined\<close> outside.
\<close>

definition array_get :: "'a list \<Rightarrow> int \<Rightarrow> 'a option" where
  "array_get xs i = (if 0 \<le> i \<and> i < int (length xs) then Some (xs ! nat i) else None)"

text \<open>
  The lookup that \<^verbatim>\<open>renderLine\<close> and \<^verbatim>\<open>loadDiff\<close> both write out: the hunk for the
  index, then \<^verbatim>\<open>hunk.lines[index - hunk.unifiedDiffStart]\<close>.
\<close>

definition lineForIndex :: "Diff \<Rightarrow> int \<Rightarrow> DiffLine option" where
  "lineForIndex diff index =
     (case diffHunkForIndex diff index of
        None \<Rightarrow> None
      | Some hunk \<Rightarrow>
          (let relativeIndex = index - unifiedDiffStart hunk
           in array_get (lines hunk) relativeIndex))"

section \<open>The component (ui/diff)\<close>

text \<open>
  \<^verbatim>\<open>FileChange\<close> and its subclass \<^verbatim>\<open>WorkingDirectoryFileChange\<close> (models/status) and
  \<^verbatim>\<open>Commit\<close> (lib/local-git-operations) are declared outside this file; they have here
  the fields that the component reads: \<^verbatim>\<open>id\<close>, \<^verbatim>\<open>path\<close>, \<^verbatim>\<open>selection\<close> and \<^verbatim>\<open>sha\<close>.
  The two constructors stand for the two outcomes of
  \<^verbatim>\<open>file instanceof WorkingDirectoryFileChange\<close>.
\<close>

datatype FileChange =
    FileChange (id_file: string) (path: string)
  | WorkingDirectoryFileChange (id_file: string) (path: string) (selection: DiffSelection)

record Commit =
  sha :: string

type_synonym Repository = string

text \<open>
  \<^verbatim>\<open>IDiffProps\<close>; the prop \<^verbatim>\<open>file\<close> is \<open>file_prop\<close>. The optional callback
  \<^verbatim>\<open>onIncludeChanged\<close> is the flag \<open>hasOnIncludeChanged\<close>: the model returns what the
  callback would be called with.
\<close>

record IDiffProps =
  repository :: Repository
  readOnly :: bool
  file_prop :: "FileChange option"
  commit :: "Commit option"
  hasOnIncludeChanged :: bool

definition isWorkingDirectoryFileChange :: "FileChange option \<Rightarrow> bool" where
  "isWorkingDirectoryFileChange f =
     (case f of Some (WorkingDirectoryFileChange _ _ _) \<Rightarrow> True | _ \<Rightarrow> False)"

text \<open>
  The loop of \<^verbatim>\<open>onIncludeChanged\<close> that populates the map with the current state of the
  diff: for each hunk, for each line and its index in the hunk, a line of type Add or
  Delete is set at \<^verbatim>\<open>hunk.unifiedDiffStart + index\<close>.
\<close>

primrec populate_lines :: "int \<Rightarrow> nat \<Rightarrow> DiffLine list \<Rightarrow> SelectionMap \<Rightarrow> SelectionMap" where
  "populate_lines start index [] m = m"
| "populate_lines start index (line # rest) m =
     populate_lines start (Suc index) rest
       (if type_line line = Add \<or> type_line line = Delete
        then (let absoluteIndex = start + int index
              in Map_set absoluteIndex (selected line) m)
        else m)"

primrec populate_hunks :: "DiffHunk list \<Rightarrow> SelectionMap \<Rightarrow> SelectionMap" where
  "populate_hunks [] m = m"
| "populate_hunks (hunk # rest) m =
     populate_hunks rest (populate_lines (unifiedDiffStart hunk) 0 (lines hunk) m)"

text \<open>
  What a call of \<^verbatim>\<open>onIncludeChanged\<close> does: nothing when the props hold no callback,
  \<^verbatim>\<open>console.error\<close> and nothing more when the file is not a working directory change,
  and otherwise a call of the callback with the new map.
\<close>

datatype IncludeChanged = NoCallback | NotWorkingDirectory | Emitted SelectionMap

definition onIncludeChanged :: "IDiffProps \<Rightarrow> Diff \<Rightarrow> DiffLine \<Rightarrow> int \<Rightarrow> IncludeChanged" where
  "onIncludeChanged props diff line rowIndex =
     (if \<not> hasOnIncludeChanged props then NoCallback
      else
        (let startLine = rowIndex; endLine = startLine
         in if \<not> isWorkingDirectoryFileChange (file_prop props) then NotWorkingDirectory
            else
              (let newDiffSelection = populate_hunks (hunks diff) [];
                   inc = \<not> selected line
               in Emitted (fold (\<lambda>i m. Map_set i inc m) [startLine..endLine] newDiffSelection))))"

text \<open>The number of lines of type Add or Delete of a diff, over all its hunks.\<close>

definition selectableLineCount :: "Diff \<Rightarrow> nat" where
  "selectableLineCount diff = (\<Sum>h\<leftarrow>hunks diff. length (filter isAddOrDelete (lines h)))"

subsection \<open>Loading a diff\<close>

text \<open>
  The body of the \<^verbatim>\<open>forEach\<close> over \<^verbatim>\<open>selectedLines\<close> in \<^verbatim>\<open>loadDiff\<close>: the line at the
  index, if there is one, gets the value. The source assigns to the line object found in
  the first hunk whose range holds the index; \<open>update_first\<close> rewrites that hunk. A hunk
  is an object, so \<^verbatim>\<open>if (hunk)\<close> tests that one was found, and \<^verbatim>\<open>if (diffLine)\<close> that
  the index is inside the lines of the hunk. The diff is the fresh result of
  \<^verbatim>\<open>getDiff\<close>, each of its lines an object of its own.
\<close>

primrec update_first :: "('a \<Rightarrow> bool) \<Rightarrow> ('a \<Rightarrow> 'a) \<Rightarrow> 'a list \<Rightarrow> 'a list" where
  "update_first P f [] = []"
| "update_first P f (x # xs) = (if P x then f x # xs else x # update_first P f xs)"

definition selectLine :: "int \<Rightarrow> bool \<Rightarrow> Diff \<Rightarrow> Diff" where
  "selectLine index v diff =
     (case diffHunkForIndex diff index of
        None \<Rightarrow> diff
      | Some hunk \<Rightarrow>
          (let relativeIndex = index - unifiedDiffStart hunk
           in case array_get (lines hunk) relativeIndex of
                None \<Rightarrow> diff
              | Some diffLine \<Rightarrow>
                  diff\<lparr>hunks :=
                    update_first (\<lambda>h. index \<ge> unifiedDiffStart h \<and> index \<le> unifiedDiffEnd h)
                      (\<lambda>h. h\<lparr>lines := (lines h)[nat relativeIndex := diffLine\<lparr>selected := v\<rparr>]\<rparr>)
                      (hunks diff)\<rparr>))"

text \<open>
  The part of \<^verbatim>\<open>loadDiff\<close> after the diff has arrived: the selection of a working
  directory change is written into the lines of the diff.
\<close>

definition applySelection :: "FileChange \<Rightarrow> Diff \<Rightarrow> Diff" where
  "applySelection f diff =
     (case f of
        FileChange _ _ \<Rightarrow> diff
      | WorkingDirectoryFileChange _ _ diffSelection \<Rightarrow>
          (let selectionType = getSelectionType diffSelection
           in if selectionType = PartialSel
              then fold (\<lambda>(index, v) d. selectLine index v d) (selectedLines diffSelection) diff
              else (let includeAll = (if selectionType = AllSel then True else False)
                    in setAllLines includeAll diff)))"

text \<open>
  The component: its props, \<^verbatim>\<open>this.state.diff\<close>, the editor (null, or an instance, which
  is here the scroll position that \<^verbatim>\<open>getScrollInfo\<close> would report) and the scroll position
  to restore.
\<close>

record DiffComponent =
  props :: IDiffProps
  state_diff :: Diff
  codeMirror :: "(int \<times> int) option"
  scrollPositionToRestore :: "(int \<times> int) option"

text \<open>What \<^verbatim>\<open>loadDiff\<close> holds across its \<^verbatim>\<open>await\<close>: its three parameters.\<close>

record PendingLoad =
  load_repository :: Repository
  load_file :: FileChange
  load_commit :: "Commit option"

text \<open>
  \<^verbatim>\<open>loadDiff\<close> is an \<^verbatim>\<open>async\<close> function with one \<^verbatim>\<open>await\<close>. \<open>loadDiff_begin\<close> is the
  part that runs at the call: it returns at once (no file, or the same file and commit
  as the current props), or it calls \<^verbatim>\<open>LocalGitOperations.getDiff\<close> and suspends.
\<close>

datatype LoadDiffBegin = Returned DiffComponent | Awaiting DiffComponent PendingLoad

definition loadDiff_begin ::
  "DiffComponent \<Rightarrow> Repository \<Rightarrow> FileChange option \<Rightarrow> Commit option \<Rightarrow> LoadDiffBegin" where
  "loadDiff_begin c repo f cm =
     (case f of
        None \<Rightarrow> Returned (c\<lparr>state_diff := emptyDiff\<rparr>)
      | Some fl \<Rightarrow>
          (let sameFile = (case file_prop (props c) of
                             None \<Rightarrow> False
                           | Some pf \<Rightarrow> id_file fl = id_file pf);
               c1 = (case codeMirror c of
                       None \<Rightarrow> c\<lparr>scrollPositionToRestore := None\<rparr>
                     | Some scrollInfo \<Rightarrow>
                         if sameFile then c\<lparr>scrollPositionToRestore := Some scrollInfo\<rparr>
                         else c\<lparr>scrollPositionToRestore := None\<rparr>);
               sameCommit = (case cm of
                               None \<Rightarrow> False
                             | Some k \<Rightarrow>
                                 (case commit (props c) of
                                    None \<Rightarrow> False
                                  | Some pk \<Rightarrow> sha k = sha pk))
           in if sameFile \<and> sameCommit then Returned c1
              else Awaiting c1 \<lparr>load_repository = repo, load_file = fl, load_commit = cm\<rparr>))"

text \<open>
  \<open>loadDiff_resume\<close> is the part after the \<^verbatim>\<open>await\<close>, run when the promise of
  \<^verbatim>\<open>getDiff\<close> settles. A rejection is rethrown by the \<^verbatim>\<open>await\<close>: there is no handler, so
  the promise of \<^verbatim>\<open>loadDiff\<close> rejects with it and \<^verbatim>\<open>setState\<close> is not reached. A diff is
  given the selection and becomes the state of the component.
\<close>

definition loadDiff_resume ::
  "DiffComponent \<Rightarrow> PendingLoad \<Rightarrow> error + Diff \<Rightarrow> error + DiffComponent" where
  "loadDiff_resume c r res =
     (case res of
        Inl e \<Rightarrow> Inl e
      | Inr diff \<Rightarrow> Inr (c\<lparr>state_diff := applySelection (load_file r) diff\<rparr>))"

text \<open>
  The component over time: the loads that are suspended, in the order in which they were
  started. An event is either new props (React calls \<^verbatim>\<open>componentWillReceiveProps\<close>, which
  calls \<^verbatim>\<open>loadDiff\<close> on the next props while \<^verbatim>\<open>this.props\<close> are still the old ones, and
  then makes the next props current) or the settling of one of the suspended loads, in
  any order. A load that rejects leaves the component as it is.
\<close>

record System =
  component :: DiffComponent
  pending :: "PendingLoad list"

datatype Event = ReceiveProps IDiffProps | Settle nat "error + Diff"

definition componentWillReceiveProps :: "DiffComponent \<Rightarrow> IDiffProps \<Rightarrow> LoadDiffBegin" where
  "componentWillReceiveProps c nextProps =
     loadDiff_begin c (repository nextProps) (file_prop nextProps) (commit nextProps)"

fun step :: "System \<Rightarrow> Event \<Rightarrow> System" where
  "step s (ReceiveProps nextProps) =
     (case componentWillReceiveProps (component s) nextProps of
        Returned c \<Rightarrow> s\<lparr>component := c\<lparr>props := nextProps\<rparr>\<rparr>
      | Awaiting c r \<Rightarrow> \<lparr>component = c\<lparr>props := nextProps\<rparr>, pending = pending s @ [r]\<rparr>)"
| "step s (Settle k res) =
     (if k < length (pending s)
      then (case loadDiff_resume (component s) (pending s ! k) res of
              Inl e \<Rightarrow> s\<lparr>pending := take k (pending s) @ drop (Suc k) (pending s)\<rparr>
            | Inr c \<Rightarrow> \<lparr>component = c, pending = take k (pending s) @ drop (Suc k) (pending s)\<rparr>)
      else s)"

definition run :: "System \<Rightarrow> Event list \<Rightarrow> System" where
  "run s evs = foldl step s evs"

text \<open>The component as its constructor leaves it, with its first props.\<close>

definition newComponent :: "IDiffProps \<Rightarrow> DiffComponent" where
  "newComponent p =
     \<lparr>props = p, state_diff = emptyDiff, codeMirror = None, scrollPositionToRestore = None\<rparr>"

section \<open>The invariants of the data model\<close>

text \<open>
  The global addressing invariant of a diff, as the specification words it: the hunks are
  ordered by their start, their ranges \<open>[unifiedDiffStart, unifiedDiffEnd]\<close> follow one
  another with no gap and no overlap, and the first one starts at 0. A hunk with no line
  has the empty range \<open>[s, s - 1]\<close>.
\<close>

fun contiguousFrom :: "int \<Rightarrow> DiffHunk list \<Rightarrow> bool" where
  "contiguousFrom s [] = True"
| "contiguousFrom s (h # hs) =
     (unifiedDiffStart h = s \<and> s \<le> unifiedDiffEnd h + 1 \<and> contiguousFrom (unifiedDiffEnd h + 1) hs)"

definition globalAddressingInvariant :: "Diff \<Rightarrow> bool" where
  "globalAddressingInvariant diff = contiguousFrom 0 (hunks diff)"

text \<open>The invariant of a hunk: its range is as long as its sequence of lines.\<close>

definition hunkInvariant :: "DiffHunk \<Rightarrow> bool" where
  "hunkInvariant h = (unifiedDiffEnd h - unifiedDiffStart h + 1 = int (length (lines h)))"

definition diffInvariant :: "Diff \<Rightarrow> bool" where
  "diffInvariant diff = (globalAddressingInvariant diff \<and> list_all hunkInvariant (hunks diff))"

text \<open>
  The lookup of \<open>lineForIndex\<close> over a list of hunks, for the proofs by induction on
  the hunks.
\<close>

definition lineIn :: "DiffHunk list \<Rightarrow> int \<Rightarrow> DiffLine option" where
  "lineIn hs k =
     (case find (\<lambda>h. k \<ge> unifiedDiffStart h \<and> k \<le> unifiedDiffEnd h) hs of
        None \<Rightarrow> None
      | Some h \<Rightarrow> array_get (lines h) (k - unifiedDiffStart h))"

section \<open>A diff of two hunks\<close>

text \<open>
  \<^verbatim>\<open>new DiffLine(text, type, oldLineNumber, newLineNumber)\<close>: \<open>selected\<close> starts false and
  \<open>noTrailingNewLine\<close> is false by default.
\<close>

definition newDiffLine :: "string \<Rightarrow> DiffLineType \<Rightarrow> int option \<Rightarrow> int option \<Rightarrow> DiffLine" where
  "newDiffLine t ty old new =
     \<lparr>text_line = t, type_line = ty, oldLineNumber = old, newLineNumber = new,
      selected = False, noTrailingNewLine = False\<rparr>"

text \<open>
  The diff of the scenario of the specification: a hunk at the global indices 0 to 4
  (header, context, add, delete, context) and a hunk at 5 to 7 (header, add, context).
\<close>

definition exampleHunk0 :: DiffHunk where
  "exampleHunk0 =
     \<lparr>header = \<lparr>oldStartLine = 1, oldLineCount = 3, newStartLine = 1, newLineCount = 3\<rparr>,
      lines = [newDiffLine ''@@ -1,3 +1,3 @@'' Hunk None None,
               newDiffLine '' a'' Context (Some 1) (Some 1),
               newDiffLine ''+b'' Add None (Some 2),
               newDiffLine ''-c'' Delete (Some 2) None,
               newDiffLine '' d'' Context (Some 3) (Some 3)],
      unifiedDiffStart = 0, unifiedDiffEnd = 4\<rparr>"

definition exampleHunk1 :: DiffHunk where
  "exampleHunk1 =
     \<lparr>header = \<lparr>oldStartLine = 9, oldLineCount = 1, newStartLine = 9, newLineCount = 2\<rparr>,
      lines = [newDiffLine ''@@ -9,1 +9,2 @@'' Hunk None None,
               newDiffLine ''+e'' Add None (Some 9),
               newDiffLine '' f'' Context (Some 9) (Some 10)],
      unifiedDiffStart = 5, unifiedDiffEnd = 7\<rparr>"

definition exampleDiff :: Diff where
  "exampleDiff = \<lparr>hunks = [exampleHunk0, exampleHunk1], isBinary = False\<rparr>"

definition exampleFile :: FileChange where
  "exampleFile =
     WorkingDirectoryFileChange ''f1'' ''a.txt'' \<lparr>include_sel = AllSel, selectedLines = []\<rparr>"

definition exampleProps :: IDiffProps where
  "exampleProps =
     \<lparr>repository = ''repo'', readOnly = False, file_prop = Some exampleFile, commit = None,
      hasOnIncludeChanged = True\<rparr>"

text \<open>A second file of the same repository, and its diff of one hunk.\<close>

definition otherDiff :: Diff where
  "otherDiff =
     \<lparr>hunks = [\<lparr>header = \<lparr>oldStartLine = 1, oldLineCount = 0, newStartLine = 1, newLineCount = 1\<rparr>,
                lines = [newDiffLine ''@@ -1,0 +1,1 @@'' Hunk None None,
                         newDiffLine ''+x'' Add None (Some 1)],
                unifiedDiffStart = 0, unifiedDiffEnd = 1\<rparr>],
      isBinary = False\<rparr>"

definition otherFile :: FileChange where
  "otherFile =
     WorkingDirectoryFileChange ''f2'' ''b.txt'' \<lparr>include_sel = AllSel, selectedLines = []\<rparr>"

definition otherProps :: IDiffProps where
  "otherProps =
     \<lparr>repository = ''repo'', readOnly = False, file_prop = Some otherFile, commit = None,
      hasOnIncludeChanged = True\<rparr>"

definition noFileProps :: IDiffProps where
  "noFileProps =
     \<lparr>repository = ''repo'', readOnly = False, file_prop = None, commit = None,
      hasOnIncludeChanged = True\<rparr>"

text \<open>
  The diff that \<open>loadDiff\<close> makes the state of the component for the first file, whose
  selection is the default one: every line of type Add or Delete is selected.
\<close>

definition loadedDiff :: Diff where
  "loadedDiff = applySelection exampleFile exampleDiff"

text \<open>The component showing that diff.\<close>

definition loadedComponent :: DiffComponent where
  "loadedComponent =
     \<lparr>props = exampleProps, state_diff = loadedDiff, codeMirror = None,
      scrollPositionToRestore = None\<rparr>"

text \<open>Props for a file of a commit of the history: not a working directory change.\<close>

definition historyProps :: IDiffProps where
  "historyProps =
     \<lparr>repository = ''repo'', readOnly = True, file_prop = Some (FileChange ''f3'' ''c.txt''),
      commit = Some \<lparr>sha = ''abc123''\<rparr>, hasOnIncludeChanged = False\<rparr>"

text \<open>
  The component after props for the first file and then props for the second file, with
  both loads still suspended.
\<close>

definition twoPending :: System where
  "twoPending =
     run \<lparr>component = newComponent noFileProps, pending = []\<rparr>
       [ReceiveProps exampleProps, ReceiveProps otherProps]"

text \<open>The component showing the first diff, with a load for the second file suspended.\<close>

definition onePending :: System where
  "onePending = run \<lparr>component = loadedComponent, pending = []\<rparr> [ReceiveProps otherProps]"

definition historyComponent :: DiffComponent where
  "historyComponent =
     \<lparr>props = historyProps, state_diff = emptyDiff, codeMirror = None,
      scrollPositionToRestore = None\<rparr>"

text \<open>
  Two diffs that the class \<^verbatim>\<open>Diff\<close> accepts and that break the addressing invariant. In
  the first the ranges 0 to 2 and 2 to 3 overlap at the index 2. The second is loaded for
  the first file, and both of its hunks are at the index 0.
\<close>

definition overlappingDiff :: Diff where
  "overlappingDiff =
     \<lparr>hunks =
        [\<lparr>header = \<lparr>oldStartLine = 1, oldLineCount = 0, newStartLine = 1, newLineCount = 2\<rparr>,
          lines = [newDiffLine ''@@ -1,0 +1,2 @@'' Hunk None None,
                   (newDiffLine ''+a'' Add None (Some 1))\<lparr>selected := True\<rparr>,
                   (newDiffLine ''+b'' Add None (Some 2))\<lparr>selected := True\<rparr>],
          unifiedDiffStart = 0, unifiedDiffEnd = 2\<rparr>,
         \<lparr>header = \<lparr>oldStartLine = 5, oldLineCount = 0, newStartLine = 7, newLineCount = 2\<rparr>,
          lines = [newDiffLine ''+c'' Add None (Some 7),
                   newDiffLine ''+d'' Add None (Some 8)],
          unifiedDiffStart = 2, unifiedDiffEnd = 3\<rparr>],
      isBinary = False\<rparr>"

definition collidingDiff :: Diff where
  "collidingDiff =
     applySelection exampleFile
       \<lparr>hunks =
          [\<lparr>header = \<lparr>oldStartLine = 1, oldLineCount = 0, newStartLine = 1, newLineCount = 1\<rparr>,
            lines = [newDiffLine ''+a'' Add None (Some 1)],
            unifiedDiffStart = 0, unifiedDiffEnd = 0\<rparr>,
           \<lparr>header = \<lparr>oldStartLine = 5, oldLineCount = 0, newStartLine = 6, newLineCount = 1\<rparr>,
            lines = [newDiffLine ''+b'' Add None (Some 6)],
            unifiedDiffStart = 0, unifiedDiffEnd = 0\<rparr>],
        isBinary = False\<rparr>"

section \<open>Properties of the selection summary\<close>

lemma getState_All_iff: "getState m = AllSel \<longleftrightarrow> list_all (\<lambda>k. k = True) (Map_values m)"
  by (simp add: getState_def parse_def Let_def)

lemma getState_None_iff:
  "getState m = NoneSel \<longleftrightarrow>
     \<not> list_all (\<lambda>k. k = True) (Map_values m) \<and> list_all (\<lambda>k. k = False) (Map_values m)"
  by (simp add: getState_def parse_def Let_def)

lemma getState_Partial_iff:
  "getState m = PartialSel \<longleftrightarrow>
     \<not> list_all (\<lambda>k. k = True) (Map_values m) \<and> \<not> list_all (\<lambda>k. k = False) (Map_values m)"
  by (simp add: getState_def parse_def Let_def)

lemma nonempty_not_both:
  assumes "vs \<noteq> []" and "list_all (\<lambda>k. k = False) vs"
  shows "\<not> list_all (\<lambda>k. k = True) vs"
  using assms by (cases vs) auto

text \<open>
  C1. For a map that is not empty, \<open>getState\<close>, and \<open>getSelectionType\<close> of a selection that
  holds the map, is \<open>AllSel\<close> exactly when every value of the map is true, \<open>NoneSel\<close>
  exactly when every value is false, and \<open>PartialSel\<close> exactly when neither holds.
\<close>

theorem getState_tristate:
  assumes "m \<noteq> []"
  shows "(getState m = AllSel \<longleftrightarrow> (\<forall>v \<in> set (Map_values m). v = True))
       \<and> (getState m = NoneSel \<longleftrightarrow> (\<forall>v \<in> set (Map_values m). v = False))
       \<and> (getState m = PartialSel \<longleftrightarrow>
            \<not> (\<forall>v \<in> set (Map_values m). v = True) \<and> \<not> (\<forall>v \<in> set (Map_values m). v = False))
       \<and> getSelectionType \<lparr>include_sel = d, selectedLines = m\<rparr> = getState m"
proof -
  have ne: "Map_values m \<noteq> []"
    using assms by (simp add: Map_values_def)
  have a: "getState m = AllSel \<longleftrightarrow> (\<forall>v \<in> set (Map_values m). v = True)"
    by (simp add: getState_All_iff list_all_iff)
  have n: "getState m = NoneSel \<longleftrightarrow> (\<forall>v \<in> set (Map_values m). v = False)"
    using nonempty_not_both [OF ne] by (auto simp: getState_None_iff list_all_iff)
  have p: "getState m = PartialSel \<longleftrightarrow>
      \<not> (\<forall>v \<in> set (Map_values m). v = True) \<and> \<not> (\<forall>v \<in> set (Map_values m). v = False)"
    by (simp add: getState_Partial_iff list_all_iff)
  have s: "getSelectionType \<lparr>include_sel = d, selectedLines = m\<rparr> = getState m"
    using assms by (simp add: getSelectionType_def Map_size_def)
  from a n p s show ?thesis by blast
qed

theorem getState_tristate_witness:
  "[(2, True), (3, False)] \<noteq> ([] :: SelectionMap)
   \<and> getState [(2, True), (3, False)] = PartialSel
   \<and> getSelectionType \<lparr>include_sel = AllSel, selectedLines = [(2, True), (3, False)]\<rparr> = PartialSel
   \<and> getState [(2, False), (3, False)] = NoneSel
   \<and> getState [(2, True), (3, True)] = AllSel"
proof -
  have h1: "[(2, True), (3, False)] \<noteq> ([] :: SelectionMap)" by simp
  have h2: "[(2, False), (3, False)] \<noteq> ([] :: SelectionMap)" by simp
  have h3: "[(2, True), (3, True)] \<noteq> ([] :: SelectionMap)" by simp
  show ?thesis
    using getState_tristate [OF h1, of AllSel] getState_tristate [OF h2, of AllSel]
      getState_tristate [OF h3, of AllSel]
    by (simp add: Map_values_def)
qed

text \<open>
  C5. A selection whose map is empty summarizes to its own default \<open>include_sel\<close>,
  whichever of the three values that is.
\<close>

theorem getSelectionType_empty:
  "getSelectionType \<lparr>include_sel = d, selectedLines = []\<rparr> = d"
  by (simp add: getSelectionType_def Map_size_def)

text \<open>
  C10. \<open>getState\<close> of the empty map is \<open>AllSel\<close>: both tests of \<open>parse\<close> hold of no values,
  and the test for all comes first. Only the guard of \<open>getSelectionType\<close> keeps the
  empty map from summarizing to \<open>AllSel\<close>.
\<close>

theorem getState_empty:
  "allSelected (parse []) \<and> noneSelected (parse []) \<and> getState [] = AllSel
   \<and> getSelectionType \<lparr>include_sel = NoneSel, selectedLines = []\<rparr> = NoneSel"
  by (simp add: getState_def parse_def Map_values_def getSelectionType_def Map_size_def)

section \<open>Properties of the class name\<close>

text \<open>
  C9. \<open>getClassName\<close> gives a class name for each of the four values of the enumeration;
  the branch of \<^verbatim>\<open>assertNever\<close> is taken for none of them.
\<close>

theorem getClassName_total:
  "getClassName (DiffLineType_value t) =
     Inr (case t of Add \<Rightarrow> ''diff-add'' | Delete \<Rightarrow> ''diff-delete''
          | Context \<Rightarrow> ''diff-context'' | Hunk \<Rightarrow> ''diff-hunk'')"
  by (cases t) (simp_all add: getClassName_def)

section \<open>Evaluating the examples\<close>

lemmas example_defs = exampleDiff_def exampleHunk0_def exampleHunk1_def exampleFile_def
  exampleProps_def newDiffLine_def otherDiff_def otherFile_def otherProps_def noFileProps_def
  loadedDiff_def loadedComponent_def historyProps_def

lemmas load_defs = applySelection_def getSelectionType_def Map_size_def setAllLines_def

lemma loadedDiff_invariant: "diffInvariant loadedDiff"
  by (simp add: example_defs load_defs diffInvariant_def globalAddressingInvariant_def
      hunkInvariant_def)

lemma loadedDiff_count: "selectableLineCount loadedDiff = 3"
  by (simp add: example_defs load_defs selectableLineCount_def isAddOrDelete_def)

section \<open>Properties of the lookup by global index\<close>

lemma contiguousFrom_start_le:
  "contiguousFrom s hs \<Longrightarrow> h \<in> set hs \<Longrightarrow> s \<le> unifiedDiffStart h"
proof (induction hs arbitrary: s)
  case Nil
  then show ?case by simp
next
  case (Cons a hs)
  show ?case
  proof (cases "h = a")
    case True
    with Cons.prems show ?thesis by simp
  next
    case False
    with Cons.prems have "h \<in> set hs" and "contiguousFrom (unifiedDiffEnd a + 1) hs"
      and "s \<le> unifiedDiffEnd a + 1"
      by simp_all
    with Cons.IH [of "unifiedDiffEnd a + 1"] show ?thesis by simp
  qed
qed

lemma contiguousFrom_last_ge:
  "contiguousFrom s hs \<Longrightarrow> hs \<noteq> [] \<Longrightarrow> s - 1 \<le> unifiedDiffEnd (last hs)"
proof (induction hs arbitrary: s)
  case Nil
  then show ?case by simp
next
  case (Cons a hs)
  show ?case
  proof (cases "hs = []")
    case True
    with Cons.prems show ?thesis by simp
  next
    case False
    with Cons.prems Cons.IH [of "unifiedDiffEnd a + 1"] show ?thesis by simp
  qed
qed

lemma find_contiguous_Some:
  assumes "contiguousFrom s hs"
  shows "find (\<lambda>h. i \<ge> unifiedDiffStart h \<and> i \<le> unifiedDiffEnd h) hs = Some h
         \<longleftrightarrow> h \<in> set hs \<and> unifiedDiffStart h \<le> i \<and> i \<le> unifiedDiffEnd h"
  using assms
proof (induction hs arbitrary: s)
  case Nil
  then show ?case by simp
next
  case (Cons a hs)
  from Cons.prems have tl: "contiguousFrom (unifiedDiffEnd a + 1) hs" by simp
  show ?case
  proof (cases "unifiedDiffStart a \<le> i \<and> i \<le> unifiedDiffEnd a")
    case True
    have "h' \<in> set hs \<Longrightarrow> \<not> unifiedDiffStart h' \<le> i" for h'
      using contiguousFrom_start_le [OF tl, of h'] True by simp
    with True show ?thesis by auto
  next
    case False
    with Cons.IH [OF tl] show ?thesis by auto
  qed
qed

lemma find_contiguous_None:
  assumes "contiguousFrom s hs"
  shows "find (\<lambda>h. i \<ge> unifiedDiffStart h \<and> i \<le> unifiedDiffEnd h) hs = None
         \<longleftrightarrow> i < s \<or> hs = [] \<or> unifiedDiffEnd (last hs) < i"
  using assms
proof (induction hs arbitrary: s)
  case Nil
  then show ?case by simp
next
  case (Cons a hs)
  from Cons.prems have tl: "contiguousFrom (unifiedDiffEnd a + 1) hs"
    and st: "unifiedDiffStart a = s" and le: "s \<le> unifiedDiffEnd a + 1"
    by simp_all
  show ?case
  proof (cases "hs = []")
    case True
    with st le show ?thesis by auto
  next
    case False
    have "unifiedDiffEnd a \<le> unifiedDiffEnd (last hs)"
      using contiguousFrom_last_ge [OF tl False] by simp
    with Cons.IH [OF tl] False st le show ?thesis by auto
  qed
qed

text \<open>
  C4. On a diff with the global addressing invariant, \<open>diffHunkForIndex\<close> at an integer
  index returns a hunk exactly when that hunk is a hunk of the diff whose range holds the
  index, and such a hunk is unique; it returns null exactly when the index is negative,
  or the diff has no hunk, or the index is beyond the end of the last hunk.
\<close>

theorem diffHunkForIndex_correct:
  assumes "globalAddressingInvariant d"
  shows "(\<forall>h. diffHunkForIndex d i = Some h \<longleftrightarrow>
              h \<in> set (hunks d) \<and> unifiedDiffStart h \<le> i \<and> i \<le> unifiedDiffEnd h)
       \<and> (\<forall>h h'. h \<in> set (hunks d) \<and> unifiedDiffStart h \<le> i \<and> i \<le> unifiedDiffEnd h
              \<and> h' \<in> set (hunks d) \<and> unifiedDiffStart h' \<le> i \<and> i \<le> unifiedDiffEnd h'
              \<longrightarrow> h = h')
       \<and> (diffHunkForIndex d i = None \<longleftrightarrow>
              i < 0 \<or> hunks d = [] \<or> unifiedDiffEnd (last (hunks d)) < i)"
proof -
  from assms have c: "contiguousFrom 0 (hunks d)"
    by (simp add: globalAddressingInvariant_def)
  have some: "diffHunkForIndex d i = Some h \<longleftrightarrow>
      h \<in> set (hunks d) \<and> unifiedDiffStart h \<le> i \<and> i \<le> unifiedDiffEnd h" for h
    unfolding diffHunkForIndex_def by (rule find_contiguous_Some [OF c])
  have uniq: "h = h'"
    if "h \<in> set (hunks d) \<and> unifiedDiffStart h \<le> i \<and> i \<le> unifiedDiffEnd h"
      and "h' \<in> set (hunks d) \<and> unifiedDiffStart h' \<le> i \<and> i \<le> unifiedDiffEnd h'" for h h'
  proof -
    from that have "diffHunkForIndex d i = Some h" and "diffHunkForIndex d i = Some h'"
      by (simp_all add: some)
    then show ?thesis by simp
  qed
  have none: "diffHunkForIndex d i = None \<longleftrightarrow>
      i < 0 \<or> hunks d = [] \<or> unifiedDiffEnd (last (hunks d)) < i"
    unfolding diffHunkForIndex_def by (rule find_contiguous_None [OF c])
  from some uniq none show ?thesis by blast
qed

theorem diffHunkForIndex_correct_witness:
  "globalAddressingInvariant exampleDiff
   \<and> diffHunkForIndex exampleDiff 3 = Some exampleHunk0
   \<and> diffHunkForIndex exampleDiff 5 = Some exampleHunk1
   \<and> diffHunkForIndex exampleDiff 8 = None
   \<and> diffHunkForIndex exampleDiff (- 1) = None"
proof -
  have inv: "globalAddressingInvariant exampleDiff"
    by (simp add: example_defs globalAddressingInvariant_def)
  have "exampleHunk0 \<in> set (hunks exampleDiff) \<and> unifiedDiffStart exampleHunk0 \<le> 3
      \<and> 3 \<le> unifiedDiffEnd exampleHunk0"
    by (simp add: example_defs)
  with diffHunkForIndex_correct [OF inv, of 3]
  have a: "diffHunkForIndex exampleDiff 3 = Some exampleHunk0" by blast
  have "exampleHunk1 \<in> set (hunks exampleDiff) \<and> unifiedDiffStart exampleHunk1 \<le> 5
      \<and> 5 \<le> unifiedDiffEnd exampleHunk1"
    by (simp add: example_defs)
  with diffHunkForIndex_correct [OF inv, of 5]
  have b: "diffHunkForIndex exampleDiff 5 = Some exampleHunk1" by blast
  have "unifiedDiffEnd (last (hunks exampleDiff)) < 8"
    by (simp add: example_defs)
  with diffHunkForIndex_correct [OF inv, of 8]
  have c: "diffHunkForIndex exampleDiff 8 = None" by blast
  from diffHunkForIndex_correct [OF inv, of "- 1"]
  have d: "diffHunkForIndex exampleDiff (- 1) = None" by simp
  from inv a b c d show ?thesis by simp
qed

section \<open>Properties of the bulk selection\<close>

lemma length_setAllLines_lines: "length (setAllLines_lines inc ls) = length ls"
  by (induction ls) simp_all

lemma nth_setAllLines_lines:
  "b < length ls \<Longrightarrow>
   setAllLines_lines inc ls ! b =
     (if type_line (ls ! b) = Add \<or> type_line (ls ! b) = Delete
      then (ls ! b)\<lparr>selected := inc\<rparr> else ls ! b)"
proof (induction ls arbitrary: b)
  case Nil
  then show ?case by simp
next
  case (Cons l ls)
  then show ?case by (cases b) simp_all
qed

lemma length_setAllLines_hunks: "length (setAllLines_hunks inc hs) = length hs"
  by (induction hs) simp_all

lemma nth_setAllLines_hunks:
  "a < length hs \<Longrightarrow>
   setAllLines_hunks inc hs ! a = (hs ! a)\<lparr>lines := setAllLines_lines inc (lines (hs ! a))\<rparr>"
proof (induction hs arbitrary: a)
  case Nil
  then show ?case by simp
next
  case (Cons h hs)
  then show ?case by (cases a) simp_all
qed

text \<open>
  C6. After \<open>setAllLines inc\<close> the diff has the same hunks with the same lines at the same
  places, every line of type Add or Delete has \<open>selected\<close> equal to \<open>inc\<close> and is otherwise
  as before, and every line of type Context or Hunk is as before, \<open>selected\<close> included.
\<close>

theorem setAllLines_frame:
  assumes "a < length (hunks d)" and "b < length (lines (hunks d ! a))"
  shows "length (hunks (setAllLines inc d)) = length (hunks d)
       \<and> length (lines (hunks (setAllLines inc d) ! a)) = length (lines (hunks d ! a))
       \<and> ((type_line (lines (hunks d ! a) ! b) = Add \<or> type_line (lines (hunks d ! a) ! b) = Delete)
            \<longrightarrow> lines (hunks (setAllLines inc d) ! a) ! b = (lines (hunks d ! a) ! b)\<lparr>selected := inc\<rparr>
              \<and> selected (lines (hunks (setAllLines inc d) ! a) ! b) = inc)
       \<and> ((type_line (lines (hunks d ! a) ! b) = Context \<or> type_line (lines (hunks d ! a) ! b) = Hunk)
            \<longrightarrow> lines (hunks (setAllLines inc d) ! a) ! b = lines (hunks d ! a) ! b
              \<and> selected (lines (hunks (setAllLines inc d) ! a) ! b) = selected (lines (hunks d ! a) ! b))"
proof -
  have h: "hunks (setAllLines inc d) ! a
      = (hunks d ! a)\<lparr>lines := setAllLines_lines inc (lines (hunks d ! a))\<rparr>"
    using assms(1) by (simp add: setAllLines_def nth_setAllLines_hunks)
  have l: "lines (hunks (setAllLines inc d) ! a) ! b =
      (if type_line (lines (hunks d ! a) ! b) = Add \<or> type_line (lines (hunks d ! a) ! b) = Delete
       then (lines (hunks d ! a) ! b)\<lparr>selected := inc\<rparr> else lines (hunks d ! a) ! b)"
    using assms(2) by (simp add: h nth_setAllLines_lines)
  have n1: "length (hunks (setAllLines inc d)) = length (hunks d)"
    by (simp add: setAllLines_def length_setAllLines_hunks)
  have n2: "length (lines (hunks (setAllLines inc d) ! a)) = length (lines (hunks d ! a))"
    by (simp add: h length_setAllLines_lines)
  show ?thesis
    unfolding l using n1 n2 by (cases "type_line (lines (hunks d ! a) ! b)") simp_all
qed

theorem setAllLines_frame_witness:
  "(0::nat) < length (hunks exampleDiff) \<and> 2 < length (lines (hunks exampleDiff ! 0))
   \<and> type_line (lines (hunks exampleDiff ! 0) ! 2) = Add
   \<and> selected (lines (hunks exampleDiff ! 0) ! 2) = False
   \<and> selected (lines (hunks (setAllLines True exampleDiff) ! 0) ! 2) = True
   \<and> type_line (lines (hunks exampleDiff ! 0) ! 1) = Context
   \<and> lines (hunks (setAllLines True exampleDiff) ! 0) ! 1 = lines (hunks exampleDiff ! 0) ! 1"
proof -
  have a: "(0::nat) < length (hunks exampleDiff)" by (simp add: example_defs)
  have b2: "2 < length (lines (hunks exampleDiff ! 0))" by (simp add: example_defs)
  have b1: "1 < length (lines (hunks exampleDiff ! 0))" by (simp add: example_defs)
  have t2: "type_line (lines (hunks exampleDiff ! 0) ! 2) = Add" by (simp add: example_defs)
  have s2: "selected (lines (hunks exampleDiff ! 0) ! 2) = False" by (simp add: example_defs)
  have t1: "type_line (lines (hunks exampleDiff ! 0) ! 1) = Context" by (simp add: example_defs)
  from setAllLines_frame [OF a b2, of True] t2
  have r2: "selected (lines (hunks (setAllLines True exampleDiff) ! 0) ! 2) = True" by blast
  from setAllLines_frame [OF a b1, of True] t1
  have r1: "lines (hunks (setAllLines True exampleDiff) ! 0) ! 1 = lines (hunks exampleDiff ! 0) ! 1"
    by blast
  from a b2 t2 s2 r2 t1 r1 show ?thesis by simp
qed

section \<open>Properties of the populated map\<close>

lemma lineForIndex_lineIn: "lineForIndex d k = lineIn (hunks d) k"
  by (simp add: lineForIndex_def lineIn_def diffHunkForIndex_def Let_def split: option.splits)

lemma length_update:
  "length (AList.update k v al) = (if k \<in> fst ` set al then length al else Suc (length al))"
  by (induction al) auto

lemma nth_Cons_nat_pos: "0 < (n::int) \<Longrightarrow> (x # xs) ! nat n = xs ! nat (n - 1)"
  by (cases "nat n") (auto simp: nat_diff_distrib)

lemma populate_lines_map_of:
  "map_of (populate_lines s i ls m) k =
     (if s + int i \<le> k \<and> k < s + int i + int (length ls) \<and> isAddOrDelete (ls ! nat (k - s - int i))
      then Some (selected (ls ! nat (k - s - int i)))
      else map_of m k)"
proof (induction ls arbitrary: i m)
  case Nil
  then show ?case by auto
next
  case (Cons l ls)
  let ?m' = "if type_line l = Add \<or> type_line l = Delete
             then Map_set (s + int i) (selected l) m else m"
  have step: "populate_lines s i (l # ls) m = populate_lines s (Suc i) ls ?m'"
    by (simp add: Let_def)
  have m': "map_of ?m' k = (if k = s + int i \<and> isAddOrDelete l then Some (selected l) else map_of m k)"
    by (simp add: Map_set_def isAddOrDelete_def update_conv')
  consider "k = s + int i" | "s + int i < k" | "k < s + int i" by linarith
  then show ?case
  proof cases
    case 1
    then show ?thesis unfolding step Cons.IH m' by simp
  next
    case 2
    then have "(l # ls) ! nat (k - s - int i) = ls ! nat (k - s - int (Suc i))"
      using nth_Cons_nat_pos [of "k - s - int i" l ls] by (simp add: algebra_simps)
    with 2 show ?thesis unfolding step Cons.IH m' by auto
  next
    case 3
    then show ?thesis unfolding step Cons.IH m' by simp
  qed
qed

lemma populate_lines_distinct:
  "distinct (map fst m) \<Longrightarrow> distinct (map fst (populate_lines s i ls m))"
  by (induction ls arbitrary: i m) (simp_all add: Map_set_def distinct_update Let_def)

lemma populate_lines_below:
  assumes "\<forall>k \<in> fst ` set m. k < s + int i"
  shows "\<forall>k \<in> fst ` set (populate_lines s i ls m). k < s + int i + int (length ls)"
proof
  fix k assume "k \<in> fst ` set (populate_lines s i ls m)"
  then have "map_of (populate_lines s i ls m) k \<noteq> None"
    by (simp add: map_of_eq_None_iff)
  then have "(s + int i \<le> k \<and> k < s + int i + int (length ls)) \<or> map_of m k \<noteq> None"
    unfolding populate_lines_map_of by (simp split: if_splits)
  then show "k < s + int i + int (length ls)"
  proof
    assume "map_of m k \<noteq> None"
    then have "k \<in> fst ` set m" by (simp add: map_of_eq_None_iff)
    with assms show ?thesis by fastforce
  qed simp
qed

lemma populate_lines_length:
  "\<forall>k \<in> fst ` set m. k < s + int i \<Longrightarrow>
   length (populate_lines s i ls m) = length m + length (filter isAddOrDelete ls)"
proof (induction ls arbitrary: i m)
  case Nil
  then show ?case by simp
next
  case (Cons l ls)
  let ?m' = "if type_line l = Add \<or> type_line l = Delete
             then Map_set (s + int i) (selected l) m else m"
  have step: "populate_lines s i (l # ls) m = populate_lines s (Suc i) ls ?m'"
    by (simp add: Let_def)
  from Cons.prems have notin: "s + int i \<notin> fst ` set m" by fastforce
  have "fst ` set ?m' \<subseteq> insert (s + int i) (fst ` set m)"
    by (simp add: Map_set_def dom_update subset_insertI)
  with Cons.prems have below: "\<forall>k \<in> fst ` set ?m'. k < s + int (Suc i)"
    by fastforce
  have len: "length ?m' = length m + (if isAddOrDelete l then 1 else 0)"
    using notin by (simp add: Map_set_def length_update isAddOrDelete_def)
  show ?case
    unfolding step Cons.IH [OF below] len by simp
qed

lemma find_contiguous_beyond:
  assumes "contiguousFrom s hs" and "k < s"
  shows "find (\<lambda>h. k \<ge> unifiedDiffStart h \<and> k \<le> unifiedDiffEnd h) hs = None"
  using assms contiguousFrom_start_le [OF assms(1)] by (fastforce simp: find_None_iff)

lemma lineIn_Cons:
  "lineIn (h # hs) k =
     (if unifiedDiffStart h \<le> k \<and> k \<le> unifiedDiffEnd h
      then array_get (lines h) (k - unifiedDiffStart h) else lineIn hs k)"
  by (simp add: lineIn_def)

lemma lineIn_beyond: "contiguousFrom s hs \<Longrightarrow> k < s \<Longrightarrow> lineIn hs k = None"
  by (simp add: lineIn_def find_contiguous_beyond)

lemma populate_hunks_map_of:
  assumes "contiguousFrom s hs" and "list_all hunkInvariant hs"
  shows "map_of (populate_hunks hs m) k =
     (case lineIn hs k of
        Some l \<Rightarrow> if isAddOrDelete l then Some (selected l) else map_of m k
      | None \<Rightarrow> map_of m k)"
  using assms
proof (induction hs arbitrary: s m)
  case Nil
  then show ?case by (simp add: lineIn_def)
next
  case (Cons h hs)
  let ?m1 = "populate_lines (unifiedDiffStart h) 0 (lines h) m"
  from Cons.prems have tl: "contiguousFrom (unifiedDiffEnd h + 1) hs"
    and inv: "list_all hunkInvariant hs" and "hunkInvariant h"
    by simp_all
  then have len: "unifiedDiffEnd h - unifiedDiffStart h + 1 = int (length (lines h))"
    by (simp add: hunkInvariant_def)
  have ih: "map_of (populate_hunks (h # hs) m) k =
     (case lineIn hs k of
        Some l \<Rightarrow> if isAddOrDelete l then Some (selected l) else map_of ?m1 k
      | None \<Rightarrow> map_of ?m1 k)"
    using Cons.IH [OF tl inv, of ?m1] by simp
  show ?case
  proof (cases "unifiedDiffStart h \<le> k \<and> k \<le> unifiedDiffEnd h")
    case True
    then have none: "lineIn hs k = None"
      using lineIn_beyond [OF tl, of k] by simp
    from True len have rng: "0 \<le> k - unifiedDiffStart h"
      "k - unifiedDiffStart h < int (length (lines h))" by simp_all
    from True len show ?thesis
      unfolding ih none lineIn_Cons populate_lines_map_of
      by (simp add: array_get_def)
  next
    case False
    with len have eq: "map_of ?m1 k = map_of m k"
      unfolding populate_lines_map_of by auto
    from False have lc: "lineIn (h # hs) k = lineIn hs k"
      by (auto simp: lineIn_Cons)
    show ?thesis
      unfolding ih lc eq by (rule refl)
  qed
qed

lemma populate_hunks_distinct:
  "distinct (map fst m) \<Longrightarrow> distinct (map fst (populate_hunks hs m))"
  by (induction hs arbitrary: m) (simp_all add: populate_lines_distinct)

lemma populate_hunks_length:
  assumes "contiguousFrom s hs" and "list_all hunkInvariant hs"
    and "\<forall>k \<in> fst ` set m. k < s"
  shows "length (populate_hunks hs m) =
     length m + (\<Sum>h\<leftarrow>hs. length (filter isAddOrDelete (lines h)))"
  using assms
proof (induction hs arbitrary: s m)
  case Nil
  then show ?case by simp
next
  case (Cons h hs)
  let ?m1 = "populate_lines (unifiedDiffStart h) 0 (lines h) m"
  from Cons.prems have tl: "contiguousFrom (unifiedDiffEnd h + 1) hs"
    and inv: "list_all hunkInvariant hs" and "hunkInvariant h"
    and st: "unifiedDiffStart h = s"
    by simp_all
  then have len: "unifiedDiffEnd h - unifiedDiffStart h + 1 = int (length (lines h))"
    by (simp add: hunkInvariant_def)
  from Cons.prems(3) st have b0: "\<forall>k \<in> fst ` set m. k < unifiedDiffStart h + int 0" by simp
  have b1: "\<forall>k \<in> fst ` set ?m1. k < unifiedDiffEnd h + 1"
  proof
    fix k assume "k \<in> fst ` set ?m1"
    with populate_lines_below [OF b0, of "lines h"]
    have "k < unifiedDiffStart h + int 0 + int (length (lines h))" by blast
    with len show "k < unifiedDiffEnd h + 1" by simp
  qed
  have l1: "length ?m1 = length m + length (filter isAddOrDelete (lines h))"
    by (rule populate_lines_length [OF b0])
  show ?case
    using Cons.IH [OF tl inv b1] l1 by simp
qed

lemma lineIn_position:
  assumes "contiguousFrom s hs" and "list_all hunkInvariant hs"
    and "h \<in> set hs" and "j < length (lines h)"
  shows "lineIn hs (unifiedDiffStart h + int j) = Some (lines h ! j)"
proof -
  from assms(2,3) have "hunkInvariant h" by (simp add: list_all_iff)
  with assms(4) have rng: "unifiedDiffStart h \<le> unifiedDiffStart h + int j"
    "unifiedDiffStart h + int j \<le> unifiedDiffEnd h"
    by (simp_all add: hunkInvariant_def)
  with assms(3) have "find (\<lambda>x. unifiedDiffStart h + int j \<ge> unifiedDiffStart x
      \<and> unifiedDiffStart h + int j \<le> unifiedDiffEnd x) hs = Some h"
    by (simp add: find_contiguous_Some [OF assms(1)])
  with assms(4) show ?thesis by (simp add: lineIn_def array_get_def)
qed

lemma lineIn_SomeD:
  assumes "lineIn hs k = Some l"
  shows "\<exists>h \<in> set hs. \<exists>j < length (lines h). k = unifiedDiffStart h + int j \<and> l = lines h ! j"
proof -
  from assms obtain h where f: "find (\<lambda>h. k \<ge> unifiedDiffStart h \<and> k \<le> unifiedDiffEnd h) hs = Some h"
    and a: "array_get (lines h) (k - unifiedDiffStart h) = Some l"
    by (auto simp: lineIn_def split: option.splits)
  from f have "h \<in> set hs" by (auto simp: find_Some_iff)
  moreover from a have "nat (k - unifiedDiffStart h) < length (lines h)"
    and "k = unifiedDiffStart h + int (nat (k - unifiedDiffStart h))"
    and "l = lines h ! nat (k - unifiedDiffStart h)"
    by (auto simp: array_get_def split: if_splits)
  ultimately show ?thesis by blast
qed

section \<open>Properties of a toggle\<close>

lemma onIncludeChanged_emits:
  assumes "hasOnIncludeChanged p" and "isWorkingDirectoryFileChange (file_prop p)"
  shows "onIncludeChanged p d l i =
     Emitted (Map_set i (\<not> selected l) (populate_hunks (hunks d) []))"
  using assms by (simp add: onIncludeChanged_def Let_def)

lemma populated_map_of:
  assumes "diffInvariant d"
  shows "map_of (populate_hunks (hunks d) []) k =
     (case lineForIndex d k of
        Some l \<Rightarrow> if isAddOrDelete l then Some (selected l) else None
      | None \<Rightarrow> None)"
proof -
  from assms have c: "contiguousFrom 0 (hunks d)" and i: "list_all hunkInvariant (hunks d)"
    by (simp_all add: diffInvariant_def globalAddressingInvariant_def)
  show ?thesis
    unfolding populate_hunks_map_of [OF c i] lineForIndex_lineIn
    by (simp split: option.splits)
qed

lemma populated_distinct: "distinct (map fst (populate_hunks (hunks d) []))"
  by (rule populate_hunks_distinct) simp

lemma populated_length:
  assumes "diffInvariant d"
  shows "length (populate_hunks (hunks d) []) = selectableLineCount d"
proof -
  from assms have c: "contiguousFrom 0 (hunks d)" and i: "list_all hunkInvariant (hunks d)"
    by (simp_all add: diffInvariant_def globalAddressingInvariant_def)
  have "\<forall>k \<in> fst ` set ([] :: SelectionMap). k < 0" by simp
  from populate_hunks_length [OF c i this] show ?thesis
    by (simp add: selectableLineCount_def)
qed

lemma lineForIndex_position:
  assumes "diffInvariant d" and "h \<in> set (hunks d)" and "j < length (lines h)"
  shows "lineForIndex d (unifiedDiffStart h + int j) = Some (lines h ! j)"
proof -
  from assms(1) have c: "contiguousFrom 0 (hunks d)" and i: "list_all hunkInvariant (hunks d)"
    by (simp_all add: diffInvariant_def globalAddressingInvariant_def)
  show ?thesis
    unfolding lineForIndex_lineIn by (rule lineIn_position [OF c i assms(2,3)])
qed

lemma lineForIndex_SomeD:
  "lineForIndex d k = Some l \<Longrightarrow>
   \<exists>h \<in> set (hunks d). \<exists>j < length (lines h). k = unifiedDiffStart h + int j \<and> l = lines h ! j"
  unfolding lineForIndex_lineIn by (rule lineIn_SomeD)

lemma populated_key_iff:
  assumes "diffInvariant d"
  shows "k \<in> fst ` set (populate_hunks (hunks d) []) \<longleftrightarrow>
     (\<exists>l. lineForIndex d k = Some l \<and> isAddOrDelete l)"
proof -
  have "k \<in> fst ` set (populate_hunks (hunks d) []) \<longleftrightarrow>
      map_of (populate_hunks (hunks d) []) k \<noteq> None"
    by (simp add: map_of_eq_None_iff)
  also have "\<dots> \<longleftrightarrow> (\<exists>l. lineForIndex d k = Some l \<and> isAddOrDelete l)"
    unfolding populated_map_of [OF assms] by (auto split: option.splits)
  finally show ?thesis .
qed

lemma setAllLines_lines_selected:
  "l \<in> set (setAllLines_lines b ls) \<Longrightarrow> isAddOrDelete l \<Longrightarrow> selected l = b"
  by (induction ls) (auto simp: isAddOrDelete_def split: if_splits)

lemma setAllLines_hunks_selected:
  "h \<in> set (setAllLines_hunks b hs) \<Longrightarrow> l \<in> set (lines h) \<Longrightarrow> isAddOrDelete l
   \<Longrightarrow> selected l = b"
  by (induction hs) (auto dest: setAllLines_lines_selected)

lemma applySelection_default:
  assumes "selectedLines s = []" and "include_sel s \<noteq> PartialSel"
  shows "applySelection (WorkingDirectoryFileChange fid pth s) d0 =
     setAllLines (include_sel s = AllSel) d0"
  using assms by (simp add: applySelection_def getSelectionType_def Map_size_def Let_def)

lemma distinct_all_equal:
  assumes "distinct xs" and "\<forall>x \<in> set xs. x = a"
  shows "length xs \<le> 1"
proof (cases xs)
  case Nil
  then show ?thesis by simp
next
  case (Cons x ys)
  with assms show ?thesis by (cases ys) auto
qed

lemma toggled_uniform_Partial:
  assumes dist: "distinct (map fst pop)"
    and vals: "\<forall>(k, v) \<in> set pop. v = b"
    and len: "1 < length (AList.update i (\<not> b) pop)"
  shows "getState (Map_set i (\<not> b) pop) = PartialSel"
proof -
  let ?m = "AList.update i (\<not> b) pop"
  have dm: "distinct (map fst ?m)" using dist by (rule distinct_update)
  have "map_of ?m i = Some (\<not> b)" by (simp add: update_conv')
  then have e1: "(i, \<not> b) \<in> set ?m" by (rule map_of_SomeD)
  have "\<not> (\<forall>x \<in> set (map fst ?m). x = i)"
    using distinct_all_equal [OF dm, of i] len by auto
  then obtain k v where kv: "(k, v) \<in> set ?m" and ne: "k \<noteq> i" by auto
  from kv dm have "map_of ?m k = Some v" by simp
  with ne have "map_of pop k = Some v" by (simp add: update_conv')
  then have "(k, v) \<in> set pop" by (rule map_of_SomeD)
  with vals have "v = b" by auto
  with kv have e2: "(k, b) \<in> set ?m" by simp
  from e1 e2 have "(\<not> b) \<in> set (map snd ?m)" and "b \<in> set (map snd ?m)" by force+
  then have "\<not> list_all (\<lambda>x. x = True) (map snd ?m)" and "\<not> list_all (\<lambda>x. x = False) (map snd ?m)"
    by (cases b; auto simp: list_all_iff)+
  then show ?thesis
    by (simp add: getState_Partial_iff Map_values_def Map_set_def)
qed

lemma lineForIndex_setAllLines_selected:
  assumes "lineForIndex (setAllLines b d0) k = Some l" and "isAddOrDelete l"
  shows "selected l = b"
proof -
  from lineForIndex_SomeD [OF assms(1)] obtain h j
    where "h \<in> set (hunks (setAllLines b d0))" and "j < length (lines h)" and "l = lines h ! j"
    by blast
  then have "h \<in> set (setAllLines_hunks b (hunks d0))" and "l \<in> set (lines h)"
    by (simp_all add: setAllLines_def)
  then show ?thesis using assms(2) by (rule setAllLines_hunks_selected)
qed

text \<open>
  Against C2 as it is worded, for every diff. On the diff with overlapping ranges, which
  has four lines of type Add, a toggle at the index 3 emits three entries, and the entry of
  the index 2 is false while the line of the first hunk at the index 2 is selected. On the
  loaded diff with both hunks at the index 0, which has two lines of type Add, a toggle at
  the index 0 emits one entry and the map summarizes to \<open>NoneSel\<close>. On the loaded example
  diff, which has the invariants, a toggle emits nothing when the props hold no callback,
  and nothing when the file is not a working directory change.
\<close>

theorem toggle_without_invariant_counterexample:
  "hasOnIncludeChanged exampleProps
   \<and> isWorkingDirectoryFileChange (file_prop exampleProps)
   \<and> lineForIndex overlappingDiff 3 = Some (newDiffLine ''+d'' Add None (Some 8))
   \<and> isAddOrDelete (newDiffLine ''+d'' Add None (Some 8))
   \<and> onIncludeChanged exampleProps overlappingDiff (newDiffLine ''+d'' Add None (Some 8)) 3
        = Emitted [(1, True), (2, False), (3, True)]
   \<and> selectableLineCount overlappingDiff = 4
   \<and> Map_size [(1, True), (2, False), (3, True)] = 3
   \<and> isAddOrDelete (lines (hunks overlappingDiff ! 0) ! 2)
   \<and> unifiedDiffStart (hunks overlappingDiff ! 0) + 2 = 2
   \<and> selected (lines (hunks overlappingDiff ! 0) ! 2) = True
   \<and> Map_get [(1, True), (2, False), (3, True)] 2 = Some False
   \<and> lineForIndex collidingDiff 0 = Some ((newDiffLine ''+a'' Add None (Some 1))\<lparr>selected := True\<rparr>)
   \<and> selectableLineCount collidingDiff = 2
   \<and> onIncludeChanged exampleProps collidingDiff
        ((newDiffLine ''+a'' Add None (Some 1))\<lparr>selected := True\<rparr>) 0 = Emitted [(0, False)]
   \<and> getState [(0, False)] = NoneSel
   \<and> diffInvariant loadedDiff
   \<and> lineForIndex loadedDiff 2 = Some ((newDiffLine ''+b'' Add None (Some 2))\<lparr>selected := True\<rparr>)
   \<and> onIncludeChanged (exampleProps\<lparr>hasOnIncludeChanged := False\<rparr>) loadedDiff
        ((newDiffLine ''+b'' Add None (Some 2))\<lparr>selected := True\<rparr>) 2 = NoCallback
   \<and> onIncludeChanged (historyProps\<lparr>hasOnIncludeChanged := True\<rparr>) loadedDiff
        ((newDiffLine ''+b'' Add None (Some 2))\<lparr>selected := True\<rparr>) 2 = NotWorkingDirectory"
  by (simp add: example_defs load_defs overlappingDiff_def collidingDiff_def
      onIncludeChanged_def isWorkingDirectoryFileChange_def
      Map_set_def Map_get_def Map_size_def lineForIndex_def diffHunkForIndex_def array_get_def
      selectableLineCount_def isAddOrDelete_def getState_def parse_def Map_values_def
      diffInvariant_def globalAddressingInvariant_def hunkInvariant_def)

text \<open>
  C2, as amended. On a diff with the invariants of the data model, when the props hold a
  callback and the file is a working directory change, toggling the line of type Add or
  Delete at the global index \<open>i\<close> emits a map with one entry for each line of type Add or
  Delete of all the hunks and no other entry: the entry of \<open>i\<close> is the negation of the
  \<open>selected\<close> flag of the toggled line, and the entry of every other such line is its
  \<open>selected\<close> flag. When the diff is the one that \<open>loadDiff\<close> builds for a file whose
  selection has no selected lines and a default of all or none, and it has more than one
  line of type Add or Delete, the emitted map summarizes to \<open>PartialSel\<close>.
\<close>

theorem onIncludeChanged_seed_then_toggle:
  assumes cb: "hasOnIncludeChanged p"
    and wd: "isWorkingDirectoryFileChange (file_prop p)"
    and inv: "diffInvariant d"
    and at: "lineForIndex d i = Some l"
    and sel: "isAddOrDelete l"
  shows "\<exists>m. onIncludeChanged p d l i = Emitted m
     \<and> distinct (Map_keys m)
     \<and> Map_size m = selectableLineCount d
     \<and> (\<forall>h \<in> set (hunks d). \<forall>j < length (lines h). isAddOrDelete (lines h ! j) \<longrightarrow>
          Map_get m (unifiedDiffStart h + int j) =
            Some (if unifiedDiffStart h + int j = i then \<not> selected l
                  else selected (lines h ! j)))
     \<and> (\<forall>k \<in> set (Map_keys m). \<exists>h \<in> set (hunks d). \<exists>j < length (lines h).
          k = unifiedDiffStart h + int j \<and> isAddOrDelete (lines h ! j))
     \<and> Map_get m i = Some (\<not> selected l)
     \<and> (\<forall>f d0. file_prop p = Some f \<and> selectedLines (selection f) = []
            \<and> include_sel (selection f) \<noteq> PartialSel \<and> d = applySelection f d0
            \<and> 1 < selectableLineCount d
          \<longrightarrow> getState m = PartialSel)"
proof -
  let ?pop = "populate_hunks (hunks d) []"
  let ?m = "Map_set i (\<not> selected l) ?pop"
  have em: "onIncludeChanged p d l i = Emitted ?m"
    by (rule onIncludeChanged_emits [OF cb wd])
  have mo: "map_of ?m k = (if k = i then Some (\<not> selected l) else map_of ?pop k)" for k
    by (simp add: Map_set_def update_conv')
  have ikey: "i \<in> fst ` set ?pop"
    using populated_key_iff [OF inv, of i] at sel by blast
  have dist: "distinct (Map_keys ?m)"
    by (simp add: Map_keys_def Map_set_def distinct_update populated_distinct)
  have size: "Map_size ?m = selectableLineCount d"
    using ikey by (simp add: Map_size_def Map_set_def length_update populated_length [OF inv])
  have pos: "\<forall>h \<in> set (hunks d). \<forall>j < length (lines h). isAddOrDelete (lines h ! j) \<longrightarrow>
      Map_get ?m (unifiedDiffStart h + int j) =
        Some (if unifiedDiffStart h + int j = i then \<not> selected l else selected (lines h ! j))"
  proof (intro ballI allI impI)
    fix h j
    assume h: "h \<in> set (hunks d)" and j: "j < length (lines h)"
      and a: "isAddOrDelete (lines h ! j)"
    have "lineForIndex d (unifiedDiffStart h + int j) = Some (lines h ! j)"
      by (rule lineForIndex_position [OF inv h j])
    with a have "map_of ?pop (unifiedDiffStart h + int j) = Some (selected (lines h ! j))"
      by (simp add: populated_map_of [OF inv])
    then show "Map_get ?m (unifiedDiffStart h + int j) =
        Some (if unifiedDiffStart h + int j = i then \<not> selected l else selected (lines h ! j))"
      by (simp add: Map_get_def mo)
  qed
  have keys: "\<forall>k \<in> set (Map_keys ?m). \<exists>h \<in> set (hunks d). \<exists>j < length (lines h).
      k = unifiedDiffStart h + int j \<and> isAddOrDelete (lines h ! j)"
  proof
    fix k
    assume "k \<in> set (Map_keys ?m)"
    then have "k \<in> insert i (fst ` set ?pop)"
      by (simp add: Map_keys_def Map_set_def dom_update)
    with ikey have "k \<in> fst ` set ?pop" by auto
    then obtain l' where l': "lineForIndex d k = Some l'" and a: "isAddOrDelete l'"
      using populated_key_iff [OF inv, of k] by blast
    from lineForIndex_SomeD [OF l'] a
    show "\<exists>h \<in> set (hunks d). \<exists>j < length (lines h).
        k = unifiedDiffStart h + int j \<and> isAddOrDelete (lines h ! j)"
      by blast
  qed
  have tog: "Map_get ?m i = Some (\<not> selected l)"
    by (simp add: Map_get_def mo)
  have fresh: "\<forall>f d0. file_prop p = Some f \<and> selectedLines (selection f) = []
        \<and> include_sel (selection f) \<noteq> PartialSel \<and> d = applySelection f d0
        \<and> 1 < selectableLineCount d
      \<longrightarrow> getState ?m = PartialSel"
  proof (intro allI impI)
    fix f d0
    assume a: "file_prop p = Some f \<and> selectedLines (selection f) = []
        \<and> include_sel (selection f) \<noteq> PartialSel \<and> d = applySelection f d0
        \<and> 1 < selectableLineCount d"
    with wd obtain fid pth s where f: "f = WorkingDirectoryFileChange fid pth s"
      by (cases f) (simp_all add: isWorkingDirectoryFileChange_def)
    define b where "b = (include_sel s = AllSel)"
    from a f have d: "d = setAllLines b d0"
      by (simp add: applySelection_default b_def)
    have vals: "\<forall>(k, v) \<in> set ?pop. v = b"
    proof clarify
      fix k v
      assume "(k, v) \<in> set ?pop"
      with populated_distinct [of d] have "map_of ?pop k = Some v" by simp
      then obtain l' where "lineForIndex d k = Some l'" and "isAddOrDelete l'"
        and "v = selected l'"
        unfolding populated_map_of [OF inv] by (auto split: option.splits if_splits)
      then show "v = b"
        using lineForIndex_setAllLines_selected [of b d0 k l'] d by simp
    qed
    have lb: "selected l = b"
      using lineForIndex_setAllLines_selected [of b d0 i l] at sel d by simp
    from a have "1 < selectableLineCount d" by blast
    with size have "1 < length (AList.update i (\<not> b) ?pop)"
      by (simp add: Map_size_def Map_set_def lb)
    from toggled_uniform_Partial [OF populated_distinct vals this]
    show "getState ?m = PartialSel" by (simp add: lb)
  qed
  from em dist size pos keys tog fresh show ?thesis by blast
qed

theorem onIncludeChanged_seed_then_toggle_witness:
  "hasOnIncludeChanged exampleProps
   \<and> isWorkingDirectoryFileChange (file_prop exampleProps)
   \<and> diffInvariant loadedDiff
   \<and> lineForIndex loadedDiff 2 = Some ((newDiffLine ''+b'' Add None (Some 2))\<lparr>selected := True\<rparr>)
   \<and> isAddOrDelete ((newDiffLine ''+b'' Add None (Some 2))\<lparr>selected := True\<rparr>)
   \<and> onIncludeChanged exampleProps loadedDiff
        ((newDiffLine ''+b'' Add None (Some 2))\<lparr>selected := True\<rparr>) 2
      = Emitted [(2, False), (3, True), (6, True)]
   \<and> selectableLineCount loadedDiff = 3
   \<and> getState [(2, False), (3, True), (6, True)] = PartialSel"
proof -
  let ?l = "(newDiffLine ''+b'' Add None (Some 2))\<lparr>selected := True\<rparr>"
  have cb: "hasOnIncludeChanged exampleProps" by (simp add: example_defs)
  have wd: "isWorkingDirectoryFileChange (file_prop exampleProps)"
    by (simp add: example_defs isWorkingDirectoryFileChange_def)
  have at: "lineForIndex loadedDiff 2 = Some ?l"
    by (simp add: example_defs load_defs lineForIndex_def diffHunkForIndex_def array_get_def)
  have sel: "isAddOrDelete ?l" by (simp add: example_defs isAddOrDelete_def)
  have ev: "onIncludeChanged exampleProps loadedDiff ?l 2 = Emitted [(2, False), (3, True), (6, True)]"
    by (simp add: example_defs load_defs onIncludeChanged_def isWorkingDirectoryFileChange_def
        Map_set_def)
  have fresh: "file_prop exampleProps = Some exampleFile \<and> selectedLines (selection exampleFile) = []
      \<and> include_sel (selection exampleFile) \<noteq> PartialSel
      \<and> loadedDiff = applySelection exampleFile exampleDiff \<and> 1 < selectableLineCount loadedDiff"
    by (simp add: loadedDiff_count) (simp add: example_defs)
  from onIncludeChanged_seed_then_toggle [OF cb wd loadedDiff_invariant at sel]
  obtain m where m: "onIncludeChanged exampleProps loadedDiff ?l 2 = Emitted m"
    and p: "\<forall>f d0. file_prop exampleProps = Some f \<and> selectedLines (selection f) = []
            \<and> include_sel (selection f) \<noteq> PartialSel \<and> loadedDiff = applySelection f d0
            \<and> 1 < selectableLineCount loadedDiff
          \<longrightarrow> getState m = PartialSel"
    by blast
  from p fresh have "getState m = PartialSel" by blast
  moreover from m ev have "m = [(2, False), (3, True), (6, True)]" by simp
  ultimately have "getState [(2, False), (3, True), (6, True)] = PartialSel" by simp
  with cb wd loadedDiff_invariant at sel ev loadedDiff_count show ?thesis by simp
qed

text \<open>
  Against C3 as it is worded: on the loaded example diff a toggle at the index 1, a line
  of type Context, is not ignored. It emits a map that holds the key 1.
\<close>

theorem toggle_context_line_counterexample:
  "hasOnIncludeChanged exampleProps
   \<and> isWorkingDirectoryFileChange (file_prop exampleProps)
   \<and> lineForIndex loadedDiff 1 = Some (newDiffLine '' a'' Context (Some 1) (Some 1))
   \<and> type_line (newDiffLine '' a'' Context (Some 1) (Some 1)) = Context
   \<and> onIncludeChanged exampleProps loadedDiff (newDiffLine '' a'' Context (Some 1) (Some 1)) 1
      = Emitted [(2, True), (3, True), (6, True), (1, True)]
   \<and> 1 \<in> set (Map_keys [(2, True), (3, True), (6, True), (1, True)])"
  by (simp add: example_defs load_defs onIncludeChanged_def isWorkingDirectoryFileChange_def
      Map_set_def Map_keys_def lineForIndex_def diffHunkForIndex_def array_get_def)

text \<open>
  C3, as amended. On a diff with the invariants of the data model, when the props hold a
  callback and the file is a working directory change, a toggle at a global index whose
  line is of type Context or Hunk raises no error and is not ignored: it emits a map that
  holds the index, with the negation of the \<open>selected\<close> flag of that line, next to one entry
  for each line of type Add or Delete. Every key of the emitted map other than the toggled
  index refers to a line of type Add or Delete; the toggled index does not.
\<close>

theorem onIncludeChanged_context_line:
  assumes cb: "hasOnIncludeChanged p"
    and wd: "isWorkingDirectoryFileChange (file_prop p)"
    and inv: "diffInvariant d"
    and at: "lineForIndex d i = Some l"
    and ns: "type_line l = Context \<or> type_line l = Hunk"
  shows "\<exists>m. onIncludeChanged p d l i = Emitted m
     \<and> Map_get m i = Some (\<not> selected l)
     \<and> distinct (Map_keys m)
     \<and> Map_size m = Suc (selectableLineCount d)
     \<and> (\<forall>k \<in> set (Map_keys m).
          k = i \<or> (\<exists>l'. lineForIndex d k = Some l' \<and> isAddOrDelete l'))
     \<and> i \<in> set (Map_keys m)
     \<and> \<not> (\<exists>l'. lineForIndex d i = Some l' \<and> isAddOrDelete l')"
proof -
  let ?pop = "populate_hunks (hunks d) []"
  let ?m = "Map_set i (\<not> selected l) ?pop"
  have em: "onIncludeChanged p d l i = Emitted ?m"
    by (rule onIncludeChanged_emits [OF cb wd])
  from at ns have nsel: "\<not> (\<exists>l'. lineForIndex d i = Some l' \<and> isAddOrDelete l')"
    by (auto simp: isAddOrDelete_def)
  then have ikey: "i \<notin> fst ` set ?pop"
    by (simp add: populated_key_iff [OF inv])
  have tog: "Map_get ?m i = Some (\<not> selected l)"
    by (simp add: Map_get_def Map_set_def update_conv')
  have dist: "distinct (Map_keys ?m)"
    by (simp add: Map_keys_def Map_set_def distinct_update populated_distinct)
  have size: "Map_size ?m = Suc (selectableLineCount d)"
    using ikey by (simp add: Map_size_def Map_set_def length_update populated_length [OF inv])
  have ks: "set (Map_keys ?m) = insert i (fst ` set ?pop)"
    by (simp add: Map_keys_def Map_set_def dom_update)
  have keys: "\<forall>k \<in> set (Map_keys ?m).
      k = i \<or> (\<exists>l'. lineForIndex d k = Some l' \<and> isAddOrDelete l')"
    unfolding ks using populated_key_iff [OF inv] by blast
  have mem: "i \<in> set (Map_keys ?m)"
    unfolding ks by simp
  from em tog dist size keys mem nsel show ?thesis by blast
qed

theorem onIncludeChanged_context_line_witness:
  "hasOnIncludeChanged exampleProps
   \<and> isWorkingDirectoryFileChange (file_prop exampleProps)
   \<and> diffInvariant loadedDiff
   \<and> lineForIndex loadedDiff 5 = Some (newDiffLine ''@@ -9,1 +9,2 @@'' Hunk None None)
   \<and> type_line (newDiffLine ''@@ -9,1 +9,2 @@'' Hunk None None) = Hunk
   \<and> onIncludeChanged exampleProps loadedDiff (newDiffLine ''@@ -9,1 +9,2 @@'' Hunk None None) 5
      = Emitted [(2, True), (3, True), (6, True), (5, True)]
   \<and> Map_size [(2, True), (3, True), (6, True), (5, True)] = Suc (selectableLineCount loadedDiff)"
proof -
  let ?l = "newDiffLine ''@@ -9,1 +9,2 @@'' Hunk None None"
  have cb: "hasOnIncludeChanged exampleProps" by (simp add: example_defs)
  have wd: "isWorkingDirectoryFileChange (file_prop exampleProps)"
    by (simp add: example_defs isWorkingDirectoryFileChange_def)
  have at: "lineForIndex loadedDiff 5 = Some ?l"
    by (simp add: example_defs load_defs lineForIndex_def diffHunkForIndex_def array_get_def)
  have ty: "type_line ?l = Hunk" by (simp add: example_defs)
  then have ns: "type_line ?l = Context \<or> type_line ?l = Hunk" by simp
  have ev: "onIncludeChanged exampleProps loadedDiff ?l 5
      = Emitted [(2, True), (3, True), (6, True), (5, True)]"
    by (simp add: example_defs load_defs onIncludeChanged_def isWorkingDirectoryFileChange_def
        Map_set_def)
  from onIncludeChanged_context_line [OF cb wd loadedDiff_invariant at ns]
  obtain m where m: "onIncludeChanged exampleProps loadedDiff ?l 5 = Emitted m"
    and s: "Map_size m = Suc (selectableLineCount loadedDiff)"
    by blast
  from m ev have "m = [(2, True), (3, True), (6, True), (5, True)]" by simp
  with s have "Map_size [(2, True), (3, True), (6, True), (5, True)] = Suc (selectableLineCount loadedDiff)"
    by simp
  with cb wd loadedDiff_invariant at ty ev show ?thesis by simp
qed

section \<open>Properties of loading a diff\<close>

lemmas system_defs = run_def newComponent_def componentWillReceiveProps_def loadDiff_begin_def
  loadDiff_resume_def

lemma twoPending_eq:
  "twoPending =
     \<lparr>component = \<lparr>props = otherProps, state_diff = emptyDiff, codeMirror = None,
                    scrollPositionToRestore = None\<rparr>,
      pending = [\<lparr>load_repository = ''repo'', load_file = exampleFile, load_commit = None\<rparr>,
                 \<lparr>load_repository = ''repo'', load_file = otherFile, load_commit = None\<rparr>]\<rparr>"
  by (simp add: twoPending_def system_defs exampleProps_def otherProps_def noFileProps_def
      exampleFile_def otherFile_def)

lemma onePending_eq:
  "onePending =
     \<lparr>component = \<lparr>props = otherProps, state_diff = loadedDiff, codeMirror = None,
                    scrollPositionToRestore = None\<rparr>,
      pending = [\<lparr>load_repository = ''repo'', load_file = otherFile, load_commit = None\<rparr>]\<rparr>"
  by (simp add: onePending_def loadedComponent_def system_defs exampleProps_def otherProps_def
      exampleFile_def otherFile_def)

lemma loadedDiff_not_other: "loadedDiff \<noteq> applySelection otherFile otherDiff"
  by (simp add: example_defs load_defs)

lemma loadedDiff_not_empty: "loadedDiff \<noteq> emptyDiff"
  by (simp add: example_defs load_defs emptyDiff_def)

text \<open>
  Against C7 as it is worded: props for the first file, then props for the second file,
  then the diff of the second file arrives, then the diff of the first file. The late diff
  of the first file becomes the state while the props are those of the second.
\<close>

theorem stale_result_applied_counterexample:
  "id_file exampleFile \<noteq> id_file otherFile
   \<and> run \<lparr>component = newComponent noFileProps, pending = []\<rparr>
        [ReceiveProps exampleProps, ReceiveProps otherProps,
         Settle 1 (Inr otherDiff), Settle 0 (Inr exampleDiff)]
      = \<lparr>component = \<lparr>props = otherProps, state_diff = applySelection exampleFile exampleDiff,
                       codeMirror = None, scrollPositionToRestore = None\<rparr>,
         pending = []\<rparr>
   \<and> file_prop otherProps = Some otherFile
   \<and> applySelection exampleFile exampleDiff \<noteq> applySelection otherFile otherDiff"
proof -
  have a: "id_file exampleFile \<noteq> id_file otherFile"
    by (simp add: exampleFile_def otherFile_def)
  have b: "run \<lparr>component = newComponent noFileProps, pending = []\<rparr>
        [ReceiveProps exampleProps, ReceiveProps otherProps,
         Settle 1 (Inr otherDiff), Settle 0 (Inr exampleDiff)]
      = \<lparr>component = \<lparr>props = otherProps, state_diff = applySelection exampleFile exampleDiff,
                       codeMirror = None, scrollPositionToRestore = None\<rparr>,
         pending = []\<rparr>"
    by (simp add: system_defs exampleProps_def otherProps_def noFileProps_def
        exampleFile_def otherFile_def)
  have c: "file_prop otherProps = Some otherFile" by (simp add: otherProps_def)
  from a b c loadedDiff_not_other show ?thesis by (simp add: loadedDiff_def)
qed

text \<open>
  C7, as amended. When the result of a suspended load arrives, it is applied as the current
  diff of the component, whatever the props of the component are by then: nothing is
  compared after the diff has arrived. The comparison of file id and commit sha with the
  current props is made before the request alone, where an equal file and commit make
  \<open>loadDiff\<close> return with no request.
\<close>

theorem settle_applies_result:
  assumes "k < length (pending s)"
  shows "state_diff (component (step s (Settle k (Inr d))))
           = applySelection (load_file (pending s ! k)) d
       \<and> props (component (step s (Settle k (Inr d)))) = props (component s)
       \<and> pending (step s (Settle k (Inr d))) = take k (pending s) @ drop (Suc k) (pending s)
       \<and> ((\<exists>c'. loadDiff_begin c repo (Some f) cm = Returned c') \<longleftrightarrow>
            (\<exists>pf ck pk. file_prop (props c) = Some pf \<and> id_file f = id_file pf
               \<and> cm = Some ck \<and> commit (props c) = Some pk \<and> sha ck = sha pk))"
proof -
  have a: "step s (Settle k (Inr d)) =
      \<lparr>component = (component s)\<lparr>state_diff := applySelection (load_file (pending s ! k)) d\<rparr>,
       pending = take k (pending s) @ drop (Suc k) (pending s)\<rparr>"
    using assms by (simp add: loadDiff_resume_def)
  have b: "(\<exists>c'. loadDiff_begin c repo (Some f) cm = Returned c') \<longleftrightarrow>
      (\<exists>pf ck pk. file_prop (props c) = Some pf \<and> id_file f = id_file pf
         \<and> cm = Some ck \<and> commit (props c) = Some pk \<and> sha ck = sha pk)"
    by (auto simp: loadDiff_begin_def Let_def split: option.splits)
  show ?thesis unfolding a using b by simp
qed

theorem settle_applies_result_witness:
  "0 < length (pending twoPending)
   \<and> load_file (pending twoPending ! 0) = exampleFile
   \<and> file_prop (props (component twoPending)) = Some otherFile
   \<and> state_diff (component (step twoPending (Settle 0 (Inr exampleDiff)))) = loadedDiff
   \<and> props (component (step twoPending (Settle 0 (Inr exampleDiff)))) = otherProps"
proof -
  have k: "0 < length (pending twoPending)" by (simp add: twoPending_eq)
  have f: "load_file (pending twoPending ! 0) = exampleFile" by (simp add: twoPending_eq)
  have p: "props (component twoPending) = otherProps" by (simp add: twoPending_eq)
  from settle_applies_result [OF k, of exampleDiff] f p
  have "state_diff (component (step twoPending (Settle 0 (Inr exampleDiff)))) = loadedDiff"
    and "props (component (step twoPending (Settle 0 (Inr exampleDiff)))) = otherProps"
    by (simp_all add: loadedDiff_def)
  with k f p show ?thesis by (simp add: otherProps_def)
qed

text \<open>
  Against C8 as it is worded: the component shows the first diff, props for the second
  file arrive and \<^verbatim>\<open>getDiff\<close> fails. The error leaves \<open>loadDiff\<close> as it came, and the
  component still shows the first diff, which is not the empty diff.
\<close>

theorem getDiff_failure_counterexample:
  "run \<lparr>component = loadedComponent, pending = []\<rparr>
       [ReceiveProps otherProps, Settle 0 (Inl (GetDiffFailed ''I/O error''))]
     = \<lparr>component = \<lparr>props = otherProps, state_diff = loadedDiff, codeMirror = None,
                      scrollPositionToRestore = None\<rparr>,
        pending = []\<rparr>
   \<and> loadedDiff \<noteq> emptyDiff
   \<and> loadDiff_resume (component onePending) (pending onePending ! 0)
        (Inl (GetDiffFailed ''I/O error'')) = Inl (GetDiffFailed ''I/O error'')"
proof -
  have "run \<lparr>component = loadedComponent, pending = []\<rparr>
       [ReceiveProps otherProps, Settle 0 (Inl (GetDiffFailed ''I/O error''))]
     = step onePending (Settle 0 (Inl (GetDiffFailed ''I/O error'')))"
    by (simp add: onePending_def run_def)
  also have "\<dots> = \<lparr>component = \<lparr>props = otherProps, state_diff = loadedDiff, codeMirror = None,
                      scrollPositionToRestore = None\<rparr>, pending = []\<rparr>"
    by (simp add: onePending_eq loadDiff_resume_def)
  finally show ?thesis
    using loadedDiff_not_empty by (simp add: loadDiff_resume_def)
qed

lemma loadDiff_begin_keeps_diff:
  "loadDiff_begin c repo (Some f) cm = Returned c' \<Longrightarrow> state_diff c' = state_diff c"
  "loadDiff_begin c repo (Some f) cm = Awaiting c' r \<Longrightarrow> state_diff c' = state_diff c"
  by (auto simp: loadDiff_begin_def Let_def split: option.splits if_splits)

lemma request_then_failure:
  assumes "file_prop p = Some g"
  shows "state_diff (component (step (step s (ReceiveProps p)) (Settle (length (pending s)) (Inl e))))
     = state_diff (component s)"
proof (cases "componentWillReceiveProps (component s) p")
  case (Returned c')
  then have "state_diff c' = state_diff (component s)"
    using assms loadDiff_begin_keeps_diff(1) [of "component s" "repository p" g "commit p" c']
    by (simp add: componentWillReceiveProps_def)
  with Returned show ?thesis by simp
next
  case (Awaiting c' r)
  then have "state_diff c' = state_diff (component s)"
    using assms loadDiff_begin_keeps_diff(2) [of "component s" "repository p" g "commit p" c' r]
    by (simp add: componentWillReceiveProps_def)
  with Awaiting show ?thesis by (simp add: loadDiff_resume_def)
qed

text \<open>
  C8, as amended. When \<^verbatim>\<open>getDiff\<close> fails, \<open>loadDiff\<close> handles nothing: the error is the
  result of \<open>loadDiff\<close>, and the failure leaves the component, its current diff included,
  as it was when the failure arrived; no empty diff is set. A request for a file that is
  followed at once by its failure leaves the diff that was current before the request.
  Giving the component the same props again, with a file, starts a new request exactly
  when the props hold no commit; with a commit, the equal file and commit end \<open>loadDiff\<close>
  before any request.
\<close>

theorem getDiff_failure_propagates:
  assumes "k < length (pending s)" and "file_prop (props c) = Some f" and "file_prop p = Some g"
  shows "loadDiff_resume (component s) (pending s ! k) (Inl e) = Inl e
       \<and> component (step s (Settle k (Inl e))) = component s
       \<and> pending (step s (Settle k (Inl e))) = take k (pending s) @ drop (Suc k) (pending s)
       \<and> state_diff (component (step (step s (ReceiveProps p))
                                   (Settle (length (pending s)) (Inl e))))
           = state_diff (component s)
       \<and> ((\<exists>c' r. componentWillReceiveProps c (props c) = Awaiting c' r)
            \<longleftrightarrow> commit (props c) = None)"
proof -
  have a: "loadDiff_resume (component s) (pending s ! k) (Inl e) = Inl e"
    by (simp add: loadDiff_resume_def)
  have b: "step s (Settle k (Inl e)) = s\<lparr>pending := take k (pending s) @ drop (Suc k) (pending s)\<rparr>"
    using assms(1) by (simp add: a)
  have c: "(\<exists>c' r. componentWillReceiveProps c (props c) = Awaiting c' r)
      \<longleftrightarrow> commit (props c) = None"
    using assms(2)
    by (auto simp: componentWillReceiveProps_def loadDiff_begin_def Let_def split: option.splits)
  note d = request_then_failure [OF assms(3), of s e]
  show ?thesis unfolding b using a c d by simp
qed

theorem getDiff_failure_propagates_witness:
  "0 < length (pending onePending)
   \<and> file_prop (props loadedComponent) = Some exampleFile
   \<and> file_prop exampleProps = Some exampleFile
   \<and> component (step onePending (Settle 0 (Inl (GetDiffFailed ''I/O error'')))) = component onePending
   \<and> state_diff (component onePending) = loadedDiff
   \<and> length (pending onePending) = 1
   \<and> state_diff (component (step (step onePending (ReceiveProps exampleProps))
                               (Settle 1 (Inl (GetDiffFailed ''I/O error''))))) = loadedDiff
   \<and> commit (props loadedComponent) = None
   \<and> componentWillReceiveProps loadedComponent (props loadedComponent)
       = Awaiting loadedComponent
           \<lparr>load_repository = ''repo'', load_file = exampleFile, load_commit = None\<rparr>
   \<and> componentWillReceiveProps historyComponent (props historyComponent)
       = Returned historyComponent"
proof -
  have k: "0 < length (pending onePending)" by (simp add: onePending_eq)
  have n: "length (pending onePending) = 1" by (simp add: onePending_eq)
  have f: "file_prop (props loadedComponent) = Some exampleFile"
    by (simp add: loadedComponent_def exampleProps_def)
  have g: "file_prop exampleProps = Some exampleFile" by (simp add: exampleProps_def)
  have b: "state_diff (component onePending) = loadedDiff" by (simp add: onePending_eq)
  from getDiff_failure_propagates [OF k f g, of "GetDiffFailed ''I/O error''"]
  have a: "component (step onePending (Settle 0 (Inl (GetDiffFailed ''I/O error''))))
      = component onePending"
    and r: "state_diff (component (step (step onePending (ReceiveProps exampleProps))
        (Settle (length (pending onePending)) (Inl (GetDiffFailed ''I/O error'')))))
      = state_diff (component onePending)"
    by blast+
  from r n b have r': "state_diff (component (step (step onePending (ReceiveProps exampleProps))
        (Settle 1 (Inl (GetDiffFailed ''I/O error''))))) = loadedDiff"
    by simp
  have c: "commit (props loadedComponent) = None" by (simp add: loadedComponent_def exampleProps_def)
  have d: "componentWillReceiveProps loadedComponent (props loadedComponent)
       = Awaiting loadedComponent
           \<lparr>load_repository = ''repo'', load_file = exampleFile, load_commit = None\<rparr>"
    by (simp add: loadedComponent_def exampleProps_def componentWillReceiveProps_def
        loadDiff_begin_def)
  have e: "componentWillReceiveProps historyComponent (props historyComponent)
       = Returned historyComponent"
    by (simp add: historyComponent_def historyProps_def componentWillReceiveProps_def
        loadDiff_begin_def)
  from k f g a b n r' c d e show ?thesis by simp
qed

end
